theory Spec2Isabelle
  imports Main "HOL-Library.Sublist"
begin

section \<open>Python string and list primitives used by smartdispatch.py\<close>

text \<open>
  Strings are byte strings (the module is Python 2 code: \<open>map\<close> returns a list that is
  indexed afterwards), modelled as \<^typ>\<open>string\<close>.
\<close>

text \<open>\<open>sep.join(xs)\<close>.\<close>

fun join :: "string \<Rightarrow> string list \<Rightarrow> string" where
  "join sep [] = []"
| "join sep [x] = x"
| "join sep (x # y # ys) = x @ sep @ join sep (y # ys)"

text \<open>The whitespace of a byte string: space, tab, newline, return, vertical tab, form feed.\<close>

definition isspace :: "char \<Rightarrow> bool" where
  "isspace c = (c \<in> set [CHR '' '', CHR 0x09, CHR 0x0A, CHR 0x0D, CHR 0x0B, CHR 0x0C])"

text \<open>\<open>s.strip()\<close>: whitespace removed at both ends.\<close>

definition strip :: "string \<Rightarrow> string" where
  "strip s = rev (dropWhile isspace (rev (dropWhile isspace s)))"

text \<open>
  \<open>s.split()\<close>: the maximal runs of non-whitespace characters; \<open>cur\<close> is the run being
  read.
\<close>

fun split_ws_from :: "string \<Rightarrow> string \<Rightarrow> string list" where
  "split_ws_from cur [] = (if cur = [] then [] else [cur])"
| "split_ws_from cur (c # cs) =
     (if isspace c then (if cur = [] then split_ws_from [] cs else cur # split_ws_from [] cs)
      else split_ws_from (cur @ [c]) cs)"

definition split_ws :: "string \<Rightarrow> string list" where
  "split_ws s = split_ws_from [] s"

text \<open>
  \<open>s.split(sep)\<close> for a separator of one character: the text is cut at every occurrence,
  empty parts included, so the result always has one part more than there are separators.
\<close>

fun split_char :: "char \<Rightarrow> string \<Rightarrow> string list" where
  "split_char sep [] = [[]]"
| "split_char sep (c # cs) =
     (if c = sep then [] # split_char sep cs
      else (case split_char sep cs of [] \<Rightarrow> [[c]] | w # ws \<Rightarrow> (c # w) # ws))"

text \<open>
  \<open>s[k:]\<close> where \<open>k\<close> may be \<open>None\<close>: a negative \<open>k\<close> counts from the end and is clamped at
  the start of the string.
\<close>

fun slice_from :: "int option \<Rightarrow> 'a list \<Rightarrow> 'a list" where
  "slice_from None s = s"
| "slice_from (Some k) s =
     (if k < 0 then drop (nat (int (length s) + k)) s else drop (nat k) s)"

text \<open>\<open>s[a:b]\<close> for indices that are not negative.\<close>

definition slice :: "nat \<Rightarrow> nat \<Rightarrow> 'a list \<Rightarrow> 'a list" where
  "slice a b s = drop a (take b s)"

text \<open>
  \<open>s.replace(old, new)\<close>: the occurrences of \<open>old\<close> are replaced from left to right, the
  scan resuming behind each replaced occurrence; an empty \<open>old\<close> matches before every character
  and at the end.
\<close>

function str_replace :: "string \<Rightarrow> string \<Rightarrow> string \<Rightarrow> string" where
  "str_replace old new [] = (if old = [] then new else [])"
| "str_replace old new (c # cs) =
     (if old = [] then new @ c # str_replace old new cs
      else if prefix old (c # cs) then new @ str_replace old new (drop (length old) (c # cs))
      else c # str_replace old new cs)"
  by pat_completeness auto
termination
  by (relation "measure (\<lambda>(old, new, s). length s)") (auto simp: neq_Nil_conv)

text \<open>
  \<open>itertools.product(*pools)\<close>, as its documentation defines it: the result starts as the
  list holding the empty tuple, and each pool in turn extends every tuple built so far by each
  of its elements.
\<close>

definition product_step :: "'a list list \<Rightarrow> 'a list \<Rightarrow> 'a list list" where
  "product_step result pool = concat (map (\<lambda>x. map (\<lambda>y. x @ [y]) pool) result)"

definition product :: "'a list list \<Rightarrow> 'a list list" where
  "product pools = foldl product_step [[]] pools"

text \<open>The exceptions of the interpreter that the module can raise by itself.\<close>

datatype py_error = IndexError

section \<open>Name generation\<close>

text \<open>
  Both name generators start with
  \<open>if max_length_arg is not None: max_length_arg = min(-max_length_arg, max_length_arg)\<close>
  and the same for \<open>max_length\<close>.
\<close>

definition neg_length :: "int option \<Rightarrow> int option" where
  "neg_length max_length = map_option (\<lambda>m. min (- m) m) max_length"

text \<open>
  \<open>utils.slugify\<close> is not part of the module; it is a parameter of both generators.
\<close>

definition generate_name_from_command ::
  "(string \<Rightarrow> string) \<Rightarrow> string \<Rightarrow> int option \<Rightarrow> int option \<Rightarrow> string" where
  "generate_name_from_command slugify command max_length_arg max_length =
     (let max_length_arg = neg_length max_length_arg;
          max_length = neg_length max_length;
          name = join ''_'' (map (\<lambda>argvalue. slice_from max_length_arg (slugify argvalue))
                               (split_ws command))
      in slice_from max_length name)"

text \<open>
  The default of \<open>prefix\<close> is the expression
  \<open>datetime.now().strftime('%Y-%m-%d_%H-%M-%S_')\<close> in the \<open>def\<close> line. Python evaluates a
  default once, when the \<open>def\<close> statement runs, that is when the module is imported, and
  stores the value with the function. \<open>import_module\<close> is that step: \<open>now\<close> is the clock at
  the import and \<open>strftime\<close> renders it.
\<close>

record module_state =
  default_prefix :: string

definition import_module :: "('t \<Rightarrow> string) \<Rightarrow> 't \<Rightarrow> module_state" where
  "import_module strftime now = \<lparr>default_prefix = strftime now\<rparr>"

text \<open>
  The label of one segment: \<open>argvalues[0]\<close> raises \<open>IndexError\<close> on a segment without
  values.
\<close>

definition segment_label :: "(string \<Rightarrow> string) \<Rightarrow> int option \<Rightarrow> string list \<Rightarrow> py_error + string" where
  "segment_label slugify max_length_arg argvalues =
     (case map slugify argvalues of
        [] \<Rightarrow> Inl IndexError
      | v # vs \<Rightarrow>
          Inr (if length (v # vs) > 1
               then slice_from max_length_arg v @ ''-'' @ slice_from max_length_arg (last (v # vs))
               else slice_from max_length_arg v))"

fun segment_labels :: "(string \<Rightarrow> string) \<Rightarrow> int option \<Rightarrow> string list list \<Rightarrow> py_error + string list" where
  "segment_labels slugify max_length_arg [] = Inr []"
| "segment_labels slugify max_length_arg (argvalues # arguments) =
     (case segment_label slugify max_length_arg argvalues of
        Inl e \<Rightarrow> Inl e
      | Inr l \<Rightarrow> (case segment_labels slugify max_length_arg arguments of
                    Inl e \<Rightarrow> Inl e
                  | Inr ls \<Rightarrow> Inr (l # ls)))"

text \<open>
  \<open>clock\<close> is the time at which the call is made. The body never reads it: an omitted
  \<open>prefix\<close> (\<open>prefix_arg = None\<close>) takes the value stored at the import.
\<close>

definition generate_name_from_arguments ::
  "(string \<Rightarrow> string) \<Rightarrow> module_state \<Rightarrow> 't \<Rightarrow> string list list \<Rightarrow> int option \<Rightarrow> int option
     \<Rightarrow> string option \<Rightarrow> py_error + string" where
  "generate_name_from_arguments slugify module clock arguments max_length_arg max_length prefix_arg =
     (let prefix_arg = (case prefix_arg of None \<Rightarrow> default_prefix module | Some p \<Rightarrow> p);
          max_length_arg = neg_length max_length_arg;
          max_length = neg_length max_length
      in case segment_labels slugify max_length_arg arguments of
           Inl e \<Rightarrow> Inl e
         | Inr name \<Rightarrow> Inr (prefix_arg @ slice_from max_length (join ''_'' name)))"

text \<open>The characters that a slug keeps: letters, digits, the underscore and the dash.\<close>

definition safe_char :: "char \<Rightarrow> bool" where
  "safe_char c = (c \<in> set ''abcdefghijklmnopqrstuvwxyzABCDEFGHIJKLMNOPQRSTUVWXYZ0123456789_-'')"

text \<open>
  Modelled from the spec: \<open>utils.slugify\<close> is not part of the module. The spec (4.5) asks for
  a deterministic map to a token made only of letters, digits and limited punctuation; this
  instance keeps the safe characters and drops every other one. It only instantiates the
  parameter \<open>slugify\<close> at concrete inputs.
\<close>

definition slugify_spec :: "string \<Rightarrow> string" where
  "slugify_spec s = filter safe_char s"

text \<open>The trailing \<open>|m|\<close> characters of a string; all of it when no length is given.\<close>

fun keep_last :: "int option \<Rightarrow> string \<Rightarrow> string" where
  "keep_last None s = s"
| "keep_last (Some m) s = drop (length s - nat \<bar>m\<bar>) s"

text \<open>
  The label of a segment that has a value: its trimmed first value, followed by a dash and its
  trimmed last value when it has more than one.
\<close>

definition label_of :: "(string \<Rightarrow> string) \<Rightarrow> int option \<Rightarrow> string list \<Rightarrow> string" where
  "label_of slugify k seg =
     keep_last k (slugify (hd seg)) @
     (if length seg > 1 then ''-'' @ keep_last k (slugify (last seg)) else [])"

section \<open>get_commands_from_file\<close>

text \<open>
  \<open>fileobj.read().strip().split('\n')\<close>; the argument is the text that \<open>read()\<close> returns.
\<close>

definition get_commands_from_file :: "string \<Rightarrow> string list" where
  "get_commands_from_file text = split_char (CHR 0x0A) (strip text)"

section \<open>get_commands_from_arguments\<close>

text \<open>\<open>["".join(argvalues) for argvalues in itertools.product(*arguments)]\<close>\<close>

definition get_commands_from_arguments :: "string list list \<Rightarrow> string list" where
  "get_commands_from_arguments arguments = map concat (product arguments)"

text \<open>
  Position of an index tuple in the enumeration that varies the last segment fastest: the
  mixed-radix number whose digits are the indices and whose radices are the segments' value
  counts, first segment most significant.
\<close>

fun rank :: "'a list list \<Rightarrow> nat list \<Rightarrow> nat" where
  "rank (seg # segs) (i # is) = i * prod_list (map length segs) + rank segs is"
| "rank _ _ = 0"

text \<open>An index tuple chooses one value of every segment.\<close>

definition valid_choice :: "'a list list \<Rightarrow> nat list \<Rightarrow> bool" where
  "valid_choice segs is = list_all2 (\<lambda>i seg. i < length seg) is segs"

text \<open>Strict lexicographic order on index tuples of equal length.\<close>

fun lex_less :: "nat list \<Rightarrow> nat list \<Rightarrow> bool" where
  "lex_less (i # is) (j # js) = (i < j \<or> (i = j \<and> lex_less is js))"
| "lex_less _ _ = False"

section \<open>replace_uid_tag\<close>

definition UID_TAG :: string where
  "UID_TAG = ''{UID}''"

text \<open>
  \<open>utils.generate_uid_from_string\<close> is not part of the module; it is a parameter.
\<close>

definition replace_uid_tag :: "(string \<Rightarrow> string) \<Rightarrow> string list \<Rightarrow> string list" where
  "replace_uid_tag generate_uid_from_string commands =
     map (\<lambda>command. str_replace ''{UID}'' (generate_uid_from_string command) command) commands"

text \<open>The lower-case hexadecimal digit of a number modulo 16.\<close>

definition hex_digit :: "nat \<Rightarrow> char" where
  "hex_digit n = ''0123456789abcdef'' ! (n mod 16)"

text \<open>
  Modelled from the spec: \<open>utils.generate_uid_from_string\<close> is not part of the module. The
  spec describes the UID as a short deterministic token computed from the full text of the
  command by a digest. This instance is the byte sum of the text modulo 256, written as two
  lower-case hexadecimal digits. It only instantiates the parameter at concrete inputs.
\<close>

definition uid_spec :: "string \<Rightarrow> string" where
  "uid_spec command =
     (let h = sum_list (map of_char command) mod 256 in [hex_digit (h div 16), hex_digit h])"


section \<open>unfold_arguments\<close>

text \<open>
  A folded argument of \<open>smartdispatch.argument\<close>: its regular expression and its \<open>unfold\<close>.
  The classes are not part of the module, so both are parameters. A regular expression is
  given by what it does when it is tried at a position of a text: \<open>regex a text pos = Some n\<close>
  when it matches there, the match being \<open>n\<close> characters long, and \<open>None\<close> when it does not
  match there. \<open>unfold\<close> may raise.
\<close>

record 'e folded_argument =
  regex :: "string \<Rightarrow> nat \<Rightarrow> nat option"
  unfold :: "string \<Rightarrow> 'e + string list"

text \<open>
  A match object of the master regex: \<open>start()\<close>, \<open>end()\<close> and the two named groups of
  \<open>groupdict()\<close>, one per folded argument.
\<close>

record re_match =
  m_start :: nat
  m_end :: nat
  group_range :: "string option"
  group_enumeration :: "string option"

text \<open>
  The master regex \<open>((?P<range>R)|(?P<enumeration>E))\<close> tried at a position. The alternatives
  are tried in the order of the list \<open>[RangeFoldedArgument(), EnumerationFoldedArgument()]\<close>;
  the first one that matches gives the match and its group, the other group stays \<open>None\<close>.
\<close>

definition master_regex ::
  "(string \<Rightarrow> nat \<Rightarrow> nat option) \<Rightarrow> (string \<Rightarrow> nat \<Rightarrow> nat option) \<Rightarrow> string \<Rightarrow> nat \<Rightarrow> re_match option" where
  "master_regex range_regex enumeration_regex text pos =
     (case range_regex text pos of
        Some n \<Rightarrow> Some \<lparr>m_start = pos, m_end = pos + n,
                         group_range = Some (slice pos (pos + n) text), group_enumeration = None\<rparr>
      | None \<Rightarrow>
          (case enumeration_regex text pos of
             Some n \<Rightarrow> Some \<lparr>m_start = pos, m_end = pos + n,
                              group_range = None, group_enumeration = Some (slice pos (pos + n) text)\<rparr>
           | None \<Rightarrow> None))"

text \<open>
  Where the scan goes on behind a match: at its end, or one character further when the match
  is empty.
\<close>

definition resume :: "re_match \<Rightarrow> nat" where
  "resume m = (if m_end m = m_start m then Suc (m_start m) else m_end m)"

text \<open>
  \<open>re.finditer(regex, text)\<close>: the pattern is tried at each position from the left, the
  end of the text included; where it does not match the scan moves one character on, where it
  matches the match is produced and the scan resumes behind it.
\<close>

function finditer_from ::
  "(string \<Rightarrow> nat \<Rightarrow> nat option) \<Rightarrow> (string \<Rightarrow> nat \<Rightarrow> nat option) \<Rightarrow> string \<Rightarrow> nat \<Rightarrow> re_match list" where
  "finditer_from range_regex enumeration_regex text pos =
     (if length text < pos then []
      else (case master_regex range_regex enumeration_regex text pos of
              None \<Rightarrow> finditer_from range_regex enumeration_regex text (Suc pos)
            | Some m \<Rightarrow> m # finditer_from range_regex enumeration_regex text (resume m)))"
  by pat_completeness auto
termination
  by (relation "measure (\<lambda>(r, e, text, pos). Suc (length text) - pos)")
     (auto simp: master_regex_def resume_def split: option.splits)

definition finditer ::
  "(string \<Rightarrow> nat \<Rightarrow> nat option) \<Rightarrow> (string \<Rightarrow> nat \<Rightarrow> nat option) \<Rightarrow> string \<Rightarrow> re_match list" where
  "finditer range_regex enumeration_regex text = finditer_from range_regex enumeration_regex text 0"

text \<open>
  The inner loop \<open>for argument in arguments: if groupdict[argument.name] is not None: ...\<close>
  for one match: the segments it appends, in the order of the two arguments.
\<close>

definition unfold_group :: "'e folded_argument \<Rightarrow> string option \<Rightarrow> 'e + string list list" where
  "unfold_group argument grp =
     (case grp of
        None \<Rightarrow> Inr []
      | Some captured \<Rightarrow> (case unfold argument captured of Inl e \<Rightarrow> Inl e | Inr vs \<Rightarrow> Inr [vs]))"

definition unfold_match ::
  "'e folded_argument \<Rightarrow> 'e folded_argument \<Rightarrow> re_match \<Rightarrow> 'e + string list list" where
  "unfold_match range_argument enumeration_argument m =
     (case unfold_group range_argument (group_range m) of
        Inl e \<Rightarrow> Inl e
      | Inr a \<Rightarrow> (case unfold_group enumeration_argument (group_enumeration m) of
                    Inl e \<Rightarrow> Inl e
                  | Inr b \<Rightarrow> Inr (a @ b)))"

text \<open>
  The loop over the matches, with \<open>pos\<close> the end of the previous match, and the statement
  behind the loop that appends the rest of the text.
\<close>

fun unfold_loop ::
  "'e folded_argument \<Rightarrow> 'e folded_argument \<Rightarrow> string \<Rightarrow> nat \<Rightarrow> re_match list \<Rightarrow> 'e + string list list" where
  "unfold_loop range_argument enumeration_argument text pos [] = Inr [[slice pos (length text) text]]"
| "unfold_loop range_argument enumeration_argument text pos (m # ms) =
     (case unfold_match range_argument enumeration_argument m of
        Inl e \<Rightarrow> Inl e
      | Inr folded \<Rightarrow>
          (case unfold_loop range_argument enumeration_argument text (m_end m) ms of
             Inl e \<Rightarrow> Inl e
           | Inr rest \<Rightarrow> Inr ([slice pos (m_start m) text] # folded @ rest)))"

text \<open>
  \<open>utils.escape\<close> and \<open>utils.hex2str\<close> are not part of the module; they are parameters.
\<close>

definition unfold_arguments ::
  "(string \<Rightarrow> string) \<Rightarrow> (string \<Rightarrow> string) \<Rightarrow> 'e folded_argument \<Rightarrow> 'e folded_argument
     \<Rightarrow> string list \<Rightarrow> 'e + string list list" where
  "unfold_arguments escape hex2str range_argument enumeration_argument arguments =
     (let text = escape (join '' '' arguments) in
      case unfold_loop range_argument enumeration_argument text 0
             (finditer (regex range_argument) (regex enumeration_argument) text) of
        Inl e \<Rightarrow> Inl e
      | Inr unfolded_arguments \<Rightarrow> Inr (map (map hex2str) unfolded_arguments))"

text \<open>The end of the match before the \<open>k\<close>-th one, where the \<open>k\<close>-th literal text starts.\<close>

definition prev_end :: "re_match list \<Rightarrow> nat \<Rightarrow> nat" where
  "prev_end ms k = (if k = 0 then 0 else m_end (ms ! (k - 1)))"

text \<open>The position from which the scan looked for the \<open>k\<close>-th match.\<close>

definition scan_start :: "re_match list \<Rightarrow> nat \<Rightarrow> nat" where
  "scan_start ms k = (if k = 0 then 0 else resume (ms ! (k - 1)))"

text \<open>
  The values of the Folded segment of a match: the matched text is the group of exactly one
  of the two folded arguments, and the values are what that argument unfolds it to.
\<close>

definition folded_by ::
  "'e folded_argument \<Rightarrow> 'e folded_argument \<Rightarrow> string \<Rightarrow> re_match \<Rightarrow> string list \<Rightarrow> bool" where
  "folded_by range_argument enumeration_argument text m vs =
     ((group_range m = Some (slice (m_start m) (m_end m) text) \<and> group_enumeration m = None
        \<and> unfold range_argument (slice (m_start m) (m_end m) text) = Inr vs)
      \<or> (group_range m = None \<and> group_enumeration m = Some (slice (m_start m) (m_end m) text)
        \<and> unfold enumeration_argument (slice (m_start m) (m_end m) text) = Inr vs))"

section \<open>The folded arguments, modelled from the spec\<close>

text \<open>
  \<open>RangeFoldedArgument\<close> and \<open>EnumerationFoldedArgument\<close> of \<open>smartdispatch.argument\<close> are
  not part of the module. The instances of this section follow the spec (3, 4.2) and only
  instantiate the two parameters of the unfolder at concrete inputs. These are the two
  failures that the spec names for them.
\<close>

datatype fold_error = MalformedFoldArgument | EmptyEnumeration

definition is_digit :: "char \<Rightarrow> bool" where
  "is_digit c = (c \<in> set ''0123456789'')"

text \<open>Reading one character, and one integer, off the front of what is left of the text.\<close>

fun eat :: "char \<Rightarrow> string option \<Rightarrow> string option" where
  "eat c (Some (x # xs)) = (if x = c then Some xs else None)"
| "eat c _ = None"

fun eat_int :: "string option \<Rightarrow> string option" where
  "eat_int (Some s) =
     (let ds = (if s \<noteq> [] \<and> hd s = CHR ''-'' then tl s else s)
      in if takeWhile is_digit ds = [] then None else Some (dropWhile is_digit ds))"
| "eat_int None = None"

text \<open>
  Modelled from the spec: the pattern of \<open>RangeFoldedArgument\<close>, which is not part of the
  module. The spec gives the Range syntax as \<open>[start:end]\<close> or \<open>[start:end:step]\<close> over
  integers.
\<close>

definition range_regex_spec :: "string \<Rightarrow> nat \<Rightarrow> nat option" where
  "range_regex_spec text pos =
     (let s = drop pos text;
          bounds = eat_int (eat (CHR '':'') (eat_int (eat (CHR ''['') (Some s))))
      in case eat (CHR '']'') (eat_int (eat (CHR '':'') bounds)) of
           Some r \<Rightarrow> Some (length s - length r)
         | None \<Rightarrow> map_option (\<lambda>r. length s - length r) (eat (CHR '']'') bounds))"

text \<open>
  Modelled from the spec: the pattern of \<open>EnumerationFoldedArgument\<close>, which is not part of
  the module. The spec gives the Enumeration syntax as \<open>[item1 item2 ... itemN]\<close>,
  delimited by brackets.
\<close>

definition enumeration_regex_spec :: "string \<Rightarrow> nat \<Rightarrow> nat option" where
  "enumeration_regex_spec text pos =
     (let s = drop pos text
      in case eat (CHR ''['') (Some s) of
           None \<Rightarrow> None
         | Some inside \<Rightarrow>
             map_option (\<lambda>r. length s - length r)
               (eat (CHR '']'') (Some (dropWhile (\<lambda>c. c \<noteq> CHR '']'') inside))))"

text \<open>Decimal numerals, read and written.\<close>

definition nat_of_text :: "string \<Rightarrow> nat" where
  "nat_of_text ds = foldl (\<lambda>a c. 10 * a + (of_char c - 48)) 0 ds"

definition int_of_text :: "string \<Rightarrow> int option" where
  "int_of_text s =
     (let ds = (if s \<noteq> [] \<and> hd s = CHR ''-'' then tl s else s)
      in if ds = [] \<or> \<not> list_all is_digit ds then None
         else Some (if s \<noteq> [] \<and> hd s = CHR ''-'' then - int (nat_of_text ds) else int (nat_of_text ds)))"

fun text_of_nat :: "nat \<Rightarrow> string" where
  "text_of_nat n =
     (if n < 10 then [''0123456789'' ! n]
      else text_of_nat (n div 10) @ [''0123456789'' ! (n mod 10)])"

definition text_of_int :: "int \<Rightarrow> string" where
  "text_of_int i = (if i < 0 then CHR ''-'' # text_of_nat (nat (- i)) else text_of_nat (nat i))"

text \<open>The numbers from \<open>start\<close> to \<open>stop\<close> inclusive in steps of \<open>step\<close>, which is not zero.\<close>

definition range_values :: "int \<Rightarrow> int \<Rightarrow> int \<Rightarrow> int list" where
  "range_values start stop step =
     (if 0 < step then map (\<lambda>k. start + int k * step) [0..<nat ((stop - start) div step + 1)]
      else map (\<lambda>k. start + int k * step) [0..<nat ((start - stop) div (- step) + 1)])"

text \<open>
  Modelled from the spec: the \<open>unfold\<close> of \<open>RangeFoldedArgument\<close>, which is not part of the
  module. The spec has it unfold to the numbers from \<open>start\<close> to \<open>end\<close> inclusive, advancing
  by \<open>step\<close> (1 when absent, possibly negative), and fail with \<open>MalformedFoldArgument\<close> when
  the bounds are not integers or the step is zero.
\<close>

definition range_unfold_spec :: "string \<Rightarrow> fold_error + string list" where
  "range_unfold_spec captured =
     (case map int_of_text (split_char (CHR '':'') (butlast (tl captured))) of
        [Some start, Some stop] \<Rightarrow> Inr (map text_of_int (range_values start stop 1))
      | [Some start, Some stop, Some step] \<Rightarrow>
          if step = 0 then Inl MalformedFoldArgument
          else Inr (map text_of_int (range_values start stop step))
      | _ \<Rightarrow> Inl MalformedFoldArgument)"

text \<open>
  Modelled from the spec: the \<open>unfold\<close> of \<open>EnumerationFoldedArgument\<close>, which is not part of
  the module. The spec has it unfold to its items, which whitespace separates, and fail with
  \<open>EmptyEnumeration\<close> when there is none.
\<close>

definition enumeration_unfold_spec :: "string \<Rightarrow> fold_error + string list" where
  "enumeration_unfold_spec captured =
     (let items = split_ws (butlast (tl captured))
      in if items = [] then Inl EmptyEnumeration else Inr items)"

text \<open>
  Modelled from the spec: the objects \<open>RangeFoldedArgument()\<close> and
  \<open>EnumerationFoldedArgument()\<close>, which are not part of the module, made of the patterns and
  the unfoldings above.
\<close>

definition range_spec :: "fold_error folded_argument" where
  "range_spec = \<lparr>regex = range_regex_spec, unfold = range_unfold_spec\<rparr>"

definition enumeration_spec :: "fold_error folded_argument" where
  "enumeration_spec = \<lparr>regex = enumeration_regex_spec, unfold = enumeration_unfold_spec\<rparr>"

text \<open>
  What a scan from \<open>pos\<close> produces: each match is the master regex at its start, no position
  between the point where the scan resumed and that start matches, and behind the last match
  nothing matches up to the end of the text.
\<close>

fun scanned ::
  "(string \<Rightarrow> nat \<Rightarrow> nat option) \<Rightarrow> (string \<Rightarrow> nat \<Rightarrow> nat option) \<Rightarrow> string \<Rightarrow> nat \<Rightarrow> re_match list \<Rightarrow> bool" where
  "scanned r e text pos [] = (\<forall>p. pos \<le> p \<and> p \<le> length text \<longrightarrow> master_regex r e text p = None)"
| "scanned r e text pos (m # ms) =
     (pos \<le> m_start m \<and> m_start m \<le> length text
      \<and> (\<forall>p. pos \<le> p \<and> p < m_start m \<longrightarrow> master_regex r e text p = None)
      \<and> master_regex r e text (m_start m) = Some m
      \<and> scanned r e text (resume m) ms)"

section \<open>The Cartesian product\<close>

lemma foldl_product_step:
  "foldl product_step acc pools =
     concat (map (\<lambda>x. map (\<lambda>t. x @ t) (product_lists pools)) acc)"
proof (induction pools arbitrary: acc)
  case Nil
  show ?case by (induction acc) simp_all
next
  case (Cons pool pools)
  have "concat (map (\<lambda>x. map ((@) x) (product_lists pools)) (product_step acc pool)) =
        concat (map (\<lambda>x. map ((@) x) (product_lists (pool # pools))) acc)"
  proof (induction acc)
    case Nil
    show ?case by (simp add: product_step_def)
  next
    case (Cons a acc)
    have one: "concat (map (\<lambda>x. map ((@) x) (product_lists pools)) (map (\<lambda>y. a @ [y]) pool)) =
               map ((@) a) (product_lists (pool # pools))"
      by (induction pool) (simp_all add: comp_def)
    from Cons one show ?case
      by (simp add: product_step_def)
  qed
  with Cons.IH [of "product_step acc pool"] show ?case by simp
qed

lemma product_eq_product_lists: "product pools = product_lists pools"
proof -
  have "map ((@) []) (product_lists pools) = product_lists pools"
    by (induction "product_lists pools") simp_all
  then show ?thesis by (simp add: product_def foldl_product_step)
qed

lemma length_product_lists_prod:
  "length (product_lists xss) = prod_list (map length xss)"
proof (induction xss)
  case Nil
  show ?case by simp
next
  case (Cons xs xss)
  have "length (concat (map (\<lambda>x. map ((#) x) ys) xs)) = length xs * length ys" for ys :: "'a list list"
    by (induction xs) simp_all
  with Cons show ?case by simp
qed

lemma nth_concat_blocks:
  assumes "i < length xs" and "j < n" and "\<And>x. length (f x) = n"
  shows "concat (map f xs) ! (i * n + j) = f (xs ! i) ! j"
  using assms(1)
proof (induction xs arbitrary: i)
  case Nil
  then show ?case by simp
next
  case (Cons x xs)
  show ?case
  proof (cases i)
    case 0
    with assms(2,3) show ?thesis by (simp add: nth_append)
  next
    case (Suc k)
    with Cons.prems have k: "k < length xs" by simp
    have "\<not> (Suc k * n + j < n)" by simp
    moreover have "Suc k * n + j - n = k * n + j" by simp
    ultimately show ?thesis
      using Cons.IH [OF k] Suc assms(3) by (simp add: nth_append)
  qed
qed

lemma rank_less:
  "valid_choice segs is \<Longrightarrow> rank segs is < prod_list (map length segs)"
  unfolding valid_choice_def
proof (induction "is" segs rule: list_all2_induct)
  case Nil
  show ?case by simp
next
  case (Cons i "is" seg segs)
  let ?n = "prod_list (map length segs)"
  have "i * ?n + rank segs is < i * ?n + ?n" using Cons by simp
  also have "\<dots> = Suc i * ?n" by simp
  also have "\<dots> \<le> length seg * ?n" using Cons.hyps(1) by (intro mult_le_mono1) simp
  finally show ?case by simp
qed

lemma nth_product_lists_rank:
  "valid_choice segs is \<Longrightarrow> product_lists segs ! rank segs is = map2 (\<lambda>seg i. seg ! i) segs is"
proof (induction segs arbitrary: "is")
  case Nil
  then show ?case by (simp add: valid_choice_def)
next
  case (Cons seg segs)
  from Cons.prems obtain i js where is_eq: "is = i # js" and i: "i < length seg"
    and js: "valid_choice segs js"
    by (auto simp: valid_choice_def list_all2_Cons2)
  let ?n = "prod_list (map length segs)"
  have r: "rank segs js < ?n" by (rule rank_less [OF js])
  have len: "\<And>x. length (map ((#) x) (product_lists segs)) = ?n"
    by (simp add: length_product_lists_prod)
  have "product_lists (seg # segs) ! (i * ?n + rank segs js) =
        map ((#) (seg ! i)) (product_lists segs) ! rank segs js"
    using nth_concat_blocks [OF i r len] by simp
  also have "\<dots> = seg ! i # product_lists segs ! rank segs js"
    using r by (simp add: length_product_lists_prod)
  finally show ?case using Cons.IH [OF js] is_eq by simp
qed

lemma rank_lex_mono:
  "valid_choice segs is \<Longrightarrow> valid_choice segs js \<Longrightarrow> lex_less is js \<Longrightarrow> rank segs is < rank segs js"
proof (induction segs arbitrary: "is" js)
  case Nil
  then show ?case by (simp add: valid_choice_def)
next
  case (Cons seg segs)
  from Cons.prems(1) obtain i is' where is_eq: "is = i # is'" and is': "valid_choice segs is'"
    by (auto simp: valid_choice_def list_all2_Cons2)
  from Cons.prems(2) obtain j js' where js_eq: "js = j # js'" and js': "valid_choice segs js'"
    by (auto simp: valid_choice_def list_all2_Cons2)
  let ?n = "prod_list (map length segs)"
  from Cons.prems(3) is_eq js_eq consider "i < j" | "i = j" "lex_less is' js'" by auto
  then show ?case
  proof cases
    case 1
    have "i * ?n + rank segs is' < i * ?n + ?n" using rank_less [OF is'] by simp
    also have "\<dots> = Suc i * ?n" by simp
    also have "\<dots> \<le> j * ?n" using 1 by (intro mult_le_mono1) simp
    finally show ?thesis using is_eq js_eq by simp
  next
    case 2
    with Cons.IH [OF is' js'] is_eq js_eq show ?thesis by simp
  qed
qed

text \<open>
  C1. The commands are the Cartesian product of the segments: their number is the product of
  the segments' value counts; the command of an index tuple is the concatenation, without
  separator, of the chosen value of every segment in segment order; it stands at the tuple's
  mixed-radix rank, so the last segment varies fastest and the commands follow the
  lexicographic order of the index tuples.
\<close>

theorem get_commands_from_arguments_product:
  "length (get_commands_from_arguments segs) = prod_list (map length segs)
   \<and> (\<forall>is. valid_choice segs is \<longrightarrow>
          rank segs is < length (get_commands_from_arguments segs)
        \<and> get_commands_from_arguments segs ! rank segs is = concat (map2 (\<lambda>seg i. seg ! i) segs is))
   \<and> (\<forall>is js. valid_choice segs is \<and> valid_choice segs js \<and> lex_less is js \<longrightarrow>
          rank segs is < rank segs js)"
proof (intro conjI allI impI)
  show len: "length (get_commands_from_arguments segs) = prod_list (map length segs)"
    by (simp add: get_commands_from_arguments_def product_eq_product_lists length_product_lists_prod)
  fix "is" assume v: "valid_choice segs is"
  from rank_less [OF v] len
  show r: "rank segs is < length (get_commands_from_arguments segs)" by simp
  then have "rank segs is < length (product_lists segs)"
    by (simp add: get_commands_from_arguments_def product_eq_product_lists)
  then show "get_commands_from_arguments segs ! rank segs is = concat (map2 (\<lambda>seg i. seg ! i) segs is)"
    by (simp add: get_commands_from_arguments_def product_eq_product_lists nth_product_lists_rank [OF v])
next
  fix "is" js assume "valid_choice segs is \<and> valid_choice segs js \<and> lex_less is js"
  then show "rank segs is < rank segs js" by (blast intro: rank_lex_mono)
qed

text \<open>
  C1 at the segments \<open>[a b] [x] [1 2]\<close>: four commands, and the choice of the second value
  of the first and of the last segment is the last of them.
\<close>

theorem get_commands_from_arguments_product_witness:
  "valid_choice [[''a'',''b''],[''x''],[''1'',''2'']] [1,0,1]
   \<and> valid_choice [[''a'',''b''],[''x''],[''1'',''2'']] [0,0,1]
   \<and> lex_less [0,0,1] [1,0,1]
   \<and> rank [[''a'',''b''],[''x''],[''1'',''2'']] [0,0,1] < rank [[''a'',''b''],[''x''],[''1'',''2'']] [1,0,1]
   \<and> length (get_commands_from_arguments [[''a'',''b''],[''x''],[''1'',''2'']]) = 4
   \<and> get_commands_from_arguments [[''a'',''b''],[''x''],[''1'',''2'']] ! 3 = ''bx2''"
proof -
  let ?segs = "[[''a'',''b''],[''x''],[''1'',''2'']]"
  have v1: "valid_choice ?segs [1,0,1]" and v0: "valid_choice ?segs [0,0,1]"
    by (simp_all add: valid_choice_def)
  have l: "lex_less [0,0,1] [1,0,1]" by simp
  note T = get_commands_from_arguments_product [of ?segs]
  from T have len: "length (get_commands_from_arguments ?segs) = prod_list (map length ?segs)"
    by blast
  from T v1 have at: "get_commands_from_arguments ?segs ! rank ?segs [1,0,1] =
      concat (map2 (\<lambda>seg i. seg ! i) ?segs [1,0,1])" by blast
  from T v0 v1 l have lt: "rank ?segs [0,0,1] < rank ?segs [1,0,1]" by blast
  from v0 v1 l len at lt show ?thesis by (simp add: eval_nat_numeral)
qed

section \<open>Name generation: trimming, empty input, the default prefix\<close>

lemma nat_int_diff: "0 \<le> a \<Longrightarrow> nat (int n - a) = n - nat a"
  by arith

lemma slice_from_neg_length:
  "m \<noteq> Some 0 \<Longrightarrow> slice_from (neg_length m) s = keep_last m s"
  using nat_int_diff [of "- (the m)" "length s"] nat_int_diff [of "the m" "length s"]
  by (cases m) (auto simp: neg_length_def min_def abs_if)

lemma slice_from_zero_length: "slice_from (neg_length (Some 0)) s = s"
  by (simp add: neg_length_def)

lemma segment_label_nonempty:
  "seg \<noteq> [] \<Longrightarrow> k \<noteq> Some 0 \<Longrightarrow>
   segment_label slugify (neg_length k) seg = Inr (label_of slugify k seg)"
  by (cases seg) (auto simp: segment_label_def label_of_def slice_from_neg_length last_map)

lemma segment_labels_nonempty:
  "[] \<notin> set segs \<Longrightarrow> k \<noteq> Some 0 \<Longrightarrow>
   segment_labels slugify (neg_length k) segs = Inr (map (label_of slugify k) segs)"
  by (induction segs) (auto simp: segment_label_nonempty)

text \<open>
  C6, as the code has it. The length limits are made negative whatever their sign, so a limit
  that is not zero keeps the trailing \<open>|m|\<close> characters, for a positive and for a negative
  \<open>m\<close> alike, and an absent limit keeps everything. Both generators apply the rule to every
  slugified value and to the joined name (before the prefix is put in front).
\<close>

theorem name_trim_keeps_trailing:
  assumes "max_length_arg \<noteq> Some 0" and "max_length \<noteq> Some 0"
  shows "generate_name_from_command slugify command max_length_arg max_length =
           keep_last max_length
             (join ''_'' (map (\<lambda>argvalue. keep_last max_length_arg (slugify argvalue)) (split_ws command)))
       \<and> ([] \<notin> set arguments \<longrightarrow>
            generate_name_from_arguments slugify module clock arguments max_length_arg max_length (Some p) =
              Inr (p @ keep_last max_length
                         (join ''_'' (map (label_of slugify max_length_arg) arguments))))"
  using assms
  by (simp add: generate_name_from_command_def generate_name_from_arguments_def
      slice_from_neg_length segment_labels_nonempty)

text \<open>C6 at a negative \<open>max_length_arg\<close> and a positive \<open>max_length\<close>.\<close>

theorem name_trim_keeps_trailing_witness:
  "generate_name_from_command slugify_spec ''alpha beta'' (Some (- 3)) (Some 5) = ''a_eta''
   \<and> generate_name_from_arguments slugify_spec \<lparr>default_prefix = ''d_''\<rparr> (0::nat) [[''alpha'', ''beta'']]
        (Some (- 3)) (Some 5) (Some ''p_'') = Inr ''p_a-eta''"
proof -
  have a: "Some (- 3) \<noteq> Some (0::int)" and b: "Some 5 \<noteq> Some (0::int)" by simp_all
  have c: "[] \<notin> set [[''alpha'', ''beta'']]" by simp
  show ?thesis
    using name_trim_keeps_trailing [OF a b, of slugify_spec "''alpha beta''" "[[''alpha'', ''beta'']]"
        "\<lparr>default_prefix = ''d_''\<rparr>" "0::nat" "''p_''"] c
    by (simp add: split_ws_def isspace_def slugify_spec_def safe_char_def label_of_def)
qed

text \<open>
  C6 as the spec words it fails: with the limit \<open>-2\<close> the token \<open>abcdef\<close> keeps its last two
  characters, not its first two.
\<close>

theorem trim_negative_counterexample:
  "slice_from (neg_length (Some (- 2))) ''abcdef'' = ''ef''
   \<and> take (nat \<bar>- 2\<bar>) ''abcdef'' = ''ab''
   \<and> generate_name_from_command slugify_spec ''abcdef'' (Some (- 2)) None = ''ef''"
  by (simp add: neg_length_def generate_name_from_command_def split_ws_def isspace_def
      slugify_spec_def safe_char_def)

text \<open>
  C8 as the spec words it fails: an empty command gives the empty name and an empty list of
  segments gives the prefix; neither call fails.
\<close>

theorem name_of_nothing_counterexample:
  "generate_name_from_command slugify_spec '''' None None = ''''
   \<and> generate_name_from_arguments slugify_spec \<lparr>default_prefix = ''d_''\<rparr> (0::nat) [] None None (Some ''p_'')
       = Inr ''p_''"
  by (simp add: neg_length_def generate_name_from_command_def generate_name_from_arguments_def split_ws_def)

text \<open>
  C8, as the code has it. A command without tokens is named by the empty string, and no
  segments are named by the prefix alone (the given one, or the default when it is omitted).
\<close>

theorem name_of_nothing:
  "(split_ws command = [] \<longrightarrow> generate_name_from_command slugify command max_length_arg max_length = '''')
   \<and> generate_name_from_arguments slugify module clock [] max_length_arg max_length prefix_arg =
       Inr (case prefix_arg of None \<Rightarrow> default_prefix module | Some p \<Rightarrow> p)"
  by (cases "neg_length max_length")
     (simp_all add: generate_name_from_command_def generate_name_from_arguments_def)

text \<open>C8 at a command of two spaces.\<close>

theorem name_of_nothing_witness:
  "split_ws ''  '' = [] \<and> generate_name_from_command slugify_spec ''  '' (Some 3) (Some 4) = ''''"
proof -
  have e: "split_ws ''  '' = []" by (simp add: split_ws_def isspace_def)
  with name_of_nothing [of "''  ''" slugify_spec "Some 3" "Some 4", THEN conjunct1]
  show ?thesis by simp
qed

text \<open>
  C10 as the spec words it fails: the command \<open>run_alpha_beta\<close> has no whitespace, so it is
  one token, and its name is \<open>eta\<close>, not \<open>run_pha_eta\<close>.
\<close>

theorem name_from_command_example_counterexample:
  "generate_name_from_command slugify_spec ''run_alpha_beta'' (Some 3) None = ''eta''
   \<and> ''eta'' \<noteq> ''run_pha_eta''"
  by (simp add: neg_length_def generate_name_from_command_def split_ws_def isspace_def
      slugify_spec_def safe_char_def)

text \<open>
  C10, as the code has it. With \<open>max_length_arg = 3\<close> the command \<open>run_alpha_beta\<close> is a
  single token and its name is the last three characters of its slug; it is the tokens between
  whitespace that are trimmed one by one, as in \<open>run alpha beta\<close>.
\<close>

theorem name_from_command_example:
  "generate_name_from_command slugify ''run_alpha_beta'' (Some 3) None =
     drop (length (slugify ''run_alpha_beta'') - 3) (slugify ''run_alpha_beta'')
   \<and> generate_name_from_command slugify ''run alpha beta'' (Some 3) None =
     drop (length (slugify ''run'') - 3) (slugify ''run'') @ ''_'' @
     drop (length (slugify ''alpha'') - 3) (slugify ''alpha'') @ ''_'' @
     drop (length (slugify ''beta'') - 3) (slugify ''beta'')"
  using nat_int_diff [of 3]
  by (simp add: neg_length_def generate_name_from_command_def split_ws_def isspace_def)

text \<open>
  C7. The code does not recompute the prefix: a call made at any time \<open>t1\<close> with the prefix
  omitted gives what a call with the prefix of the import time \<open>t0\<close> gives, at any time.
\<close>

theorem default_prefix_bound_at_import:
  "generate_name_from_arguments slugify (import_module strftime t0) t1 arguments
       max_length_arg max_length None =
   generate_name_from_arguments slugify (import_module strftime t0) t2 arguments
       max_length_arg max_length (Some (strftime t0))"
  by (simp add: generate_name_from_arguments_def import_module_def)

section \<open>Commands read from a file\<close>

lemma split_char_nonempty: "split_char sep s \<noteq> []"
  by (induction s) (auto split: list.splits)

lemma join_Cons_Cons: "join sep ((c # w) # ws) = c # join sep (w # ws)"
  by (cases ws) simp_all

lemma join_split_char: "join [sep] (split_char sep s) = s"
proof (induction s)
  case Nil
  show ?case by simp
next
  case (Cons c s)
  obtain w ws where sp: "split_char sep s = w # ws"
    using split_char_nonempty [of sep s] by (cases "split_char sep s") auto
  with Cons show ?case by (simp add: join_Cons_Cons)
qed

lemma split_char_no_sep: "w \<in> set (split_char sep s) \<Longrightarrow> sep \<notin> set w"
  by (induction s arbitrary: w) (auto split: if_splits list.splits)

lemma length_split_char: "length (split_char sep s) = Suc (count_list s sep)"
  by (induction s) (auto split: list.splits)

lemma strip_append_ws:
  assumes "\<forall>c\<in>set ws. isspace c"
  shows "strip (s @ ws) = strip s"
proof (cases "\<forall>c\<in>set s. isspace c")
  case True
  have dw: "dropWhile isspace xs = []" if "\<forall>c\<in>set xs. isspace c" for xs
    using that by (induction xs) simp_all
  from True assms show ?thesis by (simp add: strip_def dropWhile_append dw)
next
  case False
  then have "dropWhile isspace (s @ ws) = dropWhile isspace s @ ws"
    by (auto simp: dropWhile_append)
  moreover have "dropWhile isspace (rev ws @ xs) = dropWhile isspace xs" for xs
    using assms by (simp add: dropWhile_append)
  ultimately show ?thesis by (simp add: strip_def)
qed

lemma strip_prepend_ws:
  assumes "\<forall>c\<in>set ws. isspace c"
  shows "strip (ws @ s) = strip s"
  using assms by (simp add: strip_def dropWhile_append)

text \<open>
  C9, as the code has it. The whole text is stripped of whitespace at both ends and the rest
  is cut at every newline. So the result is never empty, has one command more than the stripped
  text has newlines, gives the stripped text back when joined by newlines (the lines are
  taken as they are, with no processing), holds no newline inside a command, and does not
  change when whitespace, such as a final newline or blank lines, is added at either end of
  the text.
\<close>

theorem get_commands_from_file_lines:
  "get_commands_from_file text \<noteq> []
   \<and> join [CHR 0x0A] (get_commands_from_file text) = strip text
   \<and> length (get_commands_from_file text) = Suc (count_list (strip text) (CHR 0x0A))
   \<and> (\<forall>command\<in>set (get_commands_from_file text). CHR 0x0A \<notin> set command)
   \<and> (\<forall>ws. (\<forall>c\<in>set ws. isspace c) \<longrightarrow>
          get_commands_from_file (text @ ws) = get_commands_from_file text
        \<and> get_commands_from_file (ws @ text) = get_commands_from_file text)"
  by (auto simp: get_commands_from_file_def split_char_nonempty join_split_char
      length_split_char strip_append_ws strip_prepend_ws dest: split_char_no_sep)

text \<open>C9 at a text of three lines, with and without two newlines at its end.\<close>

theorem get_commands_from_file_lines_witness:
  "get_commands_from_file [CHR ''a'', CHR '' '', CHR 0x0A, CHR 0x0A, CHR '' '', CHR ''b'']
     = [''a '', [], '' b'']
   \<and> isspace (CHR 0x0A)
   \<and> get_commands_from_file ([CHR ''a'', CHR '' '', CHR 0x0A, CHR 0x0A, CHR '' '', CHR ''b''] @ [CHR 0x0A, CHR 0x0A])
     = [''a '', [], '' b'']"
proof -
  let ?t = "[CHR ''a'', CHR '' '', CHR 0x0A, CHR 0x0A, CHR '' '', CHR ''b'']"
  have ws: "\<forall>c\<in>set [CHR 0x0A, CHR 0x0A]. isspace c" by (simp add: isspace_def)
  have v: "get_commands_from_file ?t = [''a '', [], '' b'']"
    by (simp add: get_commands_from_file_def strip_def isspace_def)
  from get_commands_from_file_lines [of ?t] ws
  have "get_commands_from_file (?t @ [CHR 0x0A, CHR 0x0A]) = get_commands_from_file ?t"
    by blast
  moreover have "isspace (CHR 0x0A)" by (simp add: isspace_def)
  ultimately show ?thesis using v by simp
qed

text \<open>
  C9 as the spec words it fails: lines inside the text are neither trimmed nor dropped when
  empty, and an empty text gives one empty command.
\<close>

theorem get_commands_from_file_counterexample:
  "get_commands_from_file [CHR ''a'', CHR '' '', CHR 0x0A, CHR 0x0A, CHR '' '', CHR ''b'', CHR 0x0A]
     = [''a '', [], '' b'']
   \<and> get_commands_from_file [] = [[]]"
  by (simp add: get_commands_from_file_def strip_def isspace_def)

section \<open>The UID tag\<close>

lemma str_replace_absent:
  "old \<noteq> [] \<Longrightarrow> \<not> sublist old s \<Longrightarrow> str_replace old new s = s"
  by (induction s) (auto simp: sublist_Cons_right)

lemma tag_not_prefix_inside:
  assumes "\<not> sublist ''{UID}'' (c # p)"
  shows "\<not> prefix ''{UID}'' (c # p @ ''{UID}'' @ rest)"
proof
  assume pre: "prefix ''{UID}'' (c # p @ ''{UID}'' @ rest)"
  from assms have np: "\<not> prefix ''{UID}'' (c # p)" by (auto simp: sublist_Cons_right)
  show False
  proof (cases p)
    case Nil
    with pre show False by simp
  next
    case (Cons a1 p1)
    show False
    proof (cases p1)
      case Nil
      with pre Cons show False by simp
    next
      case (Cons a2 p2)
      note c2 = this
      show False
      proof (cases p2)
        case Nil
        with pre \<open>p = a1 # p1\<close> c2 show False by simp
      next
        case (Cons a3 p3)
        note c3 = this
        show False
        proof (cases p3)
          case Nil
          with pre \<open>p = a1 # p1\<close> c2 c3 show False by simp
        next
          case (Cons a4 p4)
          with pre np \<open>p = a1 # p1\<close> c2 c3 show False by simp
        qed
      qed
    qed
  qed
qed

lemma str_replace_skip:
  "old \<noteq> [] \<Longrightarrow> \<not> prefix old (c # cs) \<Longrightarrow>
   str_replace old new (c # cs) = c # str_replace old new cs"
  by simp

lemma str_replace_hit:
  "old \<noteq> [] \<Longrightarrow> str_replace old new (old @ rest) = new @ str_replace old new rest"
  by (cases old) simp_all

lemma str_replace_piece:
  "\<not> sublist ''{UID}'' p \<Longrightarrow>
   str_replace ''{UID}'' new (p @ ''{UID}'' @ rest) = p @ new @ str_replace ''{UID}'' new rest"
proof (induction p)
  case Nil
  show ?case using str_replace_hit [of "''{UID}''" new rest] by simp
next
  case (Cons c p)
  from Cons.prems have "\<not> sublist ''{UID}'' p" by (auto simp: sublist_Cons_right)
  with Cons.IH have ih: "str_replace ''{UID}'' new (p @ ''{UID}'' @ rest) = p @ new @ str_replace ''{UID}'' new rest"
    by simp
  have "str_replace ''{UID}'' new (c # (p @ ''{UID}'' @ rest)) =
        c # str_replace ''{UID}'' new (p @ ''{UID}'' @ rest)"
    by (rule str_replace_skip) (use tag_not_prefix_inside [OF Cons.prems, of rest] in simp_all)
  with ih show ?case by (simp only: append_Cons)
qed

lemma str_replace_join:
  "\<forall>p\<in>set pieces. \<not> sublist ''{UID}'' p \<Longrightarrow>
   str_replace ''{UID}'' new (join ''{UID}'' pieces) = join new pieces"
proof (induction pieces)
  case Nil
  show ?case by simp
next
  case (Cons x ys)
  show ?case
  proof (cases ys)
    case Nil
    with Cons.prems show ?thesis by (simp add: str_replace_absent)
  next
    case ys: (Cons y zs)
    from Cons.prems have nx: "\<not> sublist ''{UID}'' x" by simp
    from Cons.prems Cons.IH ys
    have ih: "str_replace ''{UID}'' new (join ''{UID}'' (y # zs)) = join new (y # zs)" by simp
    have "str_replace ''{UID}'' new (x @ ''{UID}'' @ join ''{UID}'' (y # zs)) =
          x @ new @ str_replace ''{UID}'' new (join ''{UID}'' (y # zs))"
      by (rule str_replace_piece [OF nx])
    with ih ys show ?thesis by simp
  qed
qed

lemma pieces_exist:
  "\<exists>pieces. pieces \<noteq> [] \<and> s = join ''{UID}'' pieces \<and> (\<forall>p\<in>set pieces. \<not> sublist ''{UID}'' p)"
proof (induction "''{UID}''" "[]::string" s rule: str_replace.induct)
  case 1
  have "[[]] \<noteq> [] \<and> [] = join ''{UID}'' [[]] \<and> (\<forall>p\<in>set [[]]. \<not> sublist ''{UID}'' p)"
    by simp
  then show ?case by blast
next
  case (2 c cs)
  show ?case
  proof (cases "prefix ''{UID}'' (c # cs)")
    case True
    with 2 obtain pieces where ne: "pieces \<noteq> []"
      and eq: "drop (length ''{UID}'') (c # cs) = join ''{UID}'' pieces"
      and tf: "\<forall>p\<in>set pieces. \<not> sublist ''{UID}'' p"
      by auto
    from True have "c # cs = ''{UID}'' @ drop (length ''{UID}'') (c # cs)"
      by (metis append_take_drop_id prefix_def append_eq_conv_conj)
    with eq have "c # cs = ''{UID}'' @ join ''{UID}'' pieces" by simp
    moreover from ne obtain y ys where "pieces = y # ys" by (cases pieces) auto
    ultimately have "c # cs = join ''{UID}'' ([] # pieces)" by simp
    with tf show ?thesis
      by (intro exI [of _ "[] # pieces"]) simp
  next
    case False
    with 2 obtain pieces where ne: "pieces \<noteq> []"
      and eq: "cs = join ''{UID}'' pieces"
      and tf: "\<forall>p\<in>set pieces. \<not> sublist ''{UID}'' p"
      by auto
    from ne obtain p ps where pp: "pieces = p # ps" by (cases pieces) auto
    have "prefix (c # p) (c # cs)" using eq pp by (cases ps) simp_all
    with False have "\<not> prefix ''{UID}'' (c # p)" using prefix_order.trans by blast
    with tf pp have "\<not> sublist ''{UID}'' (c # p)" by (simp add: sublist_Cons_right)
    moreover have "c # cs = join ''{UID}'' ((c # p) # ps)" using eq pp by (cases ps) simp_all
    ultimately show ?thesis using tf pp
      by (intro exI [of _ "(c # p) # ps"]) simp
  qed
qed






text \<open>
  C4. The result has the length and the order of the command list. A command that does not
  contain the tag is unchanged. Every command is a sequence of pieces free of the tag with the
  tag between them, and however it is cut so, the result is the same pieces with the UID of
  the command itself, computed from its text with the tags still in it, between them: every
  occurrence of the tag is replaced by that UID and nothing else changes.
\<close>

theorem replace_uid_tag_every_occurrence:
  "length (replace_uid_tag uid commands) = length commands
   \<and> (\<forall>i<length commands.
        (\<not> sublist UID_TAG (commands ! i) \<longrightarrow> replace_uid_tag uid commands ! i = commands ! i)
      \<and> (\<exists>pieces. commands ! i = join UID_TAG pieces \<and> (\<forall>p\<in>set pieces. \<not> sublist UID_TAG p))
      \<and> (\<forall>pieces. commands ! i = join UID_TAG pieces \<and> (\<forall>p\<in>set pieces. \<not> sublist UID_TAG p) \<longrightarrow>
            replace_uid_tag uid commands ! i = join (uid (commands ! i)) pieces))"
proof (intro conjI allI impI)
  show "length (replace_uid_tag uid commands) = length commands"
    by (simp add: replace_uid_tag_def)
next
  fix i assume "i < length commands" and "\<not> sublist UID_TAG (commands ! i)"
  then show "replace_uid_tag uid commands ! i = commands ! i"
    by (simp add: replace_uid_tag_def UID_TAG_def str_replace_absent)
next
  fix i assume "i < length commands"
  show "\<exists>pieces. commands ! i = join UID_TAG pieces \<and> (\<forall>p\<in>set pieces. \<not> sublist UID_TAG p)"
    using pieces_exist [of "commands ! i"] unfolding UID_TAG_def by blast
next
  fix i pieces
  assume i: "i < length commands"
    and p: "commands ! i = join UID_TAG pieces \<and> (\<forall>p\<in>set pieces. \<not> sublist UID_TAG p)"
  from p have "str_replace ''{UID}'' (uid (commands ! i)) (join ''{UID}'' pieces) =
               join (uid (commands ! i)) pieces"
    unfolding UID_TAG_def by (intro str_replace_join) simp
  with i p show "replace_uid_tag uid commands ! i = join (uid (commands ! i)) pieces"
    by (simp add: replace_uid_tag_def UID_TAG_def)
qed

text \<open>C4 at a command with two tags and a command with none.\<close>

theorem replace_uid_tag_every_occurrence_witness:
  "[''job_{UID} --x={UID}'', ''plain''] ! 0 = join UID_TAG [''job_'', '' --x='', []]
   \<and> \<not> sublist UID_TAG ''job_'' \<and> \<not> sublist UID_TAG '' --x='' \<and> \<not> sublist UID_TAG []
   \<and> \<not> sublist UID_TAG ([''job_{UID} --x={UID}'', ''plain''] ! 1)
   \<and> replace_uid_tag uid_spec [''job_{UID} --x={UID}'', ''plain''] ! 0 = ''job_7d --x=7d''
   \<and> replace_uid_tag uid_spec [''job_{UID} --x={UID}'', ''plain''] ! 1 = ''plain''"
proof -
  let ?cs = "[''job_{UID} --x={UID}'', ''plain'']"
  let ?ps = "[''job_'', '' --x='', []]"
  have a: "?cs ! 0 = join UID_TAG ?ps" by (simp add: UID_TAG_def)
  have b: "\<forall>p\<in>set ?ps. \<not> sublist UID_TAG p" by (simp add: UID_TAG_def sublist_code)
  have c: "\<not> sublist UID_TAG (?cs ! 1)" by (simp add: UID_TAG_def sublist_code)
  have u: "uid_spec ''job_{UID} --x={UID}'' = ''7d''" by code_simp
  note T = replace_uid_tag_every_occurrence [of uid_spec ?cs, THEN conjunct2, rule_format]
  have i0: "0 < length ?cs" and i1: "1 < length ?cs" by simp_all
  from T [OF i0, THEN conjunct2, THEN conjunct2] a b
  have r0: "replace_uid_tag uid_spec ?cs ! 0 = join (uid_spec (?cs ! 0)) ?ps" by blast
  from T [OF i1, THEN conjunct1] c
  have r1: "replace_uid_tag uid_spec ?cs ! 1 = ?cs ! 1" by blast
  have j: "join (uid_spec (?cs ! 0)) ?ps = ''job_7d --x=7d''" by (simp add: u)
  have k: "?cs ! 1 = ''plain''" by simp
  from b have b': "\<not> sublist UID_TAG ''job_'' \<and> \<not> sublist UID_TAG '' --x='' \<and> \<not> sublist UID_TAG []"
    by simp
  from a b' c r0 [unfolded j] r1 [unfolded k] show ?thesis by blast
qed




section \<open>The unfolder\<close>

lemma master_regex_start: "master_regex r e s p = Some m \<Longrightarrow> m_start m = p"
  by (auto simp: master_regex_def split: option.splits)

lemma scanned_earlier:
  "scanned r e s (Suc pos) ms \<Longrightarrow> master_regex r e s pos = None \<Longrightarrow> scanned r e s pos ms"
proof (cases ms)
  case Nil
  assume a: "scanned r e s (Suc pos) ms" and n: "master_regex r e s pos = None"
  show ?thesis
  proof (unfold Nil scanned.simps, intro allI impI)
    fix p assume "pos \<le> p \<and> p \<le> length s"
    then consider "p = pos" | "Suc pos \<le> p \<and> p \<le> length s" by linarith
    then show "master_regex r e s p = None"
      using a n Nil by cases auto
  qed
next
  case (Cons m ms')
  assume a: "scanned r e s (Suc pos) ms" and n: "master_regex r e s pos = None"
  have "master_regex r e s p = None" if "pos \<le> p \<and> p < m_start m" for p
  proof -
    from that consider "p = pos" | "Suc pos \<le> p \<and> p < m_start m" by linarith
    then show ?thesis using a n Cons by cases auto
  qed
  with a Cons show ?thesis by auto
qed

declare finditer_from.simps [simp del]

lemma finditer_from_scanned:
  "scanned r e s pos (finditer_from r e s pos)"
proof (induction r e s pos rule: finditer_from.induct)
  case (1 r e s pos)
  note unroll = finditer_from.simps [of r e s pos]
  show ?case
  proof (cases "length s < pos")
    case True
    then show ?thesis by (auto simp: unroll)
  next
    case False
    show ?thesis
    proof (cases "master_regex r e s pos")
      case None
      with 1(1) False have "scanned r e s (Suc pos) (finditer_from r e s (Suc pos))" by simp
      from scanned_earlier [OF this None] False None show ?thesis by (simp add: unroll)
    next
      case (Some m)
      with 1(2) False have "scanned r e s (resume m) (finditer_from r e s (resume m))" by simp
      with False Some master_regex_start [OF Some] show ?thesis by (auto simp: unroll)
    qed
  qed
qed

lemma master_regex_Some:
  assumes "master_regex r e s p = Some m"
  shows "m_start m = p" and "m_start m \<le> m_end m"
    and "r s p \<noteq> None \<Longrightarrow> group_range m = Some (slice p (m_end m) s) \<and> group_enumeration m = None
           \<and> m_end m = p + the (r s p)"
    and "r s p = None \<Longrightarrow> e s p \<noteq> None \<and> group_range m = None
           \<and> group_enumeration m = Some (slice p (m_end m) s) \<and> m_end m = p + the (e s p)"
  using assms by (auto simp: master_regex_def split: option.splits)

lemma master_regex_None:
  "master_regex r e s p = None \<longleftrightarrow> r s p = None \<and> e s p = None"
  by (auto simp: master_regex_def split: option.splits)

lemma scanned_nth:
  "scanned r e s pos ms \<Longrightarrow> k < length ms \<Longrightarrow>
     (if k = 0 then pos else resume (ms ! (k - 1))) \<le> m_start (ms ! k)
   \<and> m_start (ms ! k) \<le> length s
   \<and> (\<forall>p. (if k = 0 then pos else resume (ms ! (k - 1))) \<le> p \<and> p < m_start (ms ! k)
           \<longrightarrow> master_regex r e s p = None)
   \<and> master_regex r e s (m_start (ms ! k)) = Some (ms ! k)"
proof (induction ms arbitrary: pos k)
  case Nil
  then show ?case by simp
next
  case (Cons m ms)
  show ?case
  proof (cases k)
    case 0
    with Cons.prems show ?thesis by simp
  next
    case (Suc j)
    with Cons.prems have "scanned r e s (resume m) ms" and "j < length ms" by simp_all
    from Cons.IH [OF this] Suc show ?thesis by (cases j) simp_all
  qed
qed

lemma scanned_last:
  "scanned r e s pos ms \<Longrightarrow>
   \<forall>p. (if ms = [] then pos else resume (last ms)) \<le> p \<and> p \<le> length s
        \<longrightarrow> master_regex r e s p = None"
  by (induction ms arbitrary: pos) auto

lemma scanned_set:
  "scanned r e s pos ms \<Longrightarrow> m \<in> set ms \<Longrightarrow> master_regex r e s (m_start m) = Some m"
  by (induction ms arbitrary: pos) auto

lemma unfold_match_Inr:
  assumes "master_regex (regex rng) (regex enm) s p = Some m"
    and "unfold_match rng enm m = Inr folded"
  shows "\<exists>vs. folded = [vs] \<and> folded_by rng enm s m vs"
  using assms
  by (auto simp: master_regex_def unfold_match_def unfold_group_def folded_by_def
      split: option.splits sum.splits)

lemma unfold_match_Inl:
  assumes "unfold_match rng enm m = Inl err"
  shows "(\<exists>g. group_range m = Some g \<and> unfold rng g = Inl err)
       \<or> (\<exists>g. group_enumeration m = Some g \<and> unfold enm g = Inl err)"
  using assms
  by (auto simp: unfold_match_def unfold_group_def split: option.splits sum.splits)

lemma unfold_loop_Inl:
  "unfold_loop rng enm s pos ms = Inl err \<Longrightarrow> \<exists>m\<in>set ms. unfold_match rng enm m = Inl err"
  by (induction ms arbitrary: pos) (auto split: sum.splits)

lemma unfold_loop_Inr:
  assumes "\<forall>m\<in>set ms. master_regex (regex rng) (regex enm) s (m_start m) = Some m"
    and "unfold_loop rng enm s pos ms = Inr segs"
  shows "length segs = 2 * length ms + 1
       \<and> (\<forall>k<length ms.
             segs ! (2 * k) = [slice (if k = 0 then pos else m_end (ms ! (k - 1))) (m_start (ms ! k)) s]
           \<and> (\<exists>vs. folded_by rng enm s (ms ! k) vs \<and> segs ! (2 * k + 1) = vs))
       \<and> segs ! (2 * length ms) = [slice (if ms = [] then pos else m_end (last ms)) (length s) s]"
  using assms
proof (induction ms arbitrary: pos segs)
  case Nil
  then show ?case by auto
next
  case (Cons m ms)
  from Cons.prems(2) obtain folded rest where f: "unfold_match rng enm m = Inr folded"
    and r: "unfold_loop rng enm s (m_end m) ms = Inr rest"
    and segs: "segs = [slice pos (m_start m) s] # folded @ rest"
    by (auto split: sum.splits)
  from Cons.prems(1) have mm: "master_regex (regex rng) (regex enm) s (m_start m) = Some m" by simp
  from unfold_match_Inr [OF mm f] obtain vs where vs: "folded = [vs]" "folded_by rng enm s m vs"
    by blast
  from Cons.prems(1) have "\<forall>m\<in>set ms. master_regex (regex rng) (regex enm) s (m_start m) = Some m"
    by simp
  from Cons.IH [OF this r]
  have len: "length rest = 2 * length ms + 1"
    and nth: "\<And>k. k < length ms \<Longrightarrow>
             rest ! (2 * k) = [slice (if k = 0 then m_end m else m_end (ms ! (k - 1))) (m_start (ms ! k)) s]
           \<and> (\<exists>vs. folded_by rng enm s (ms ! k) vs \<and> rest ! (2 * k + 1) = vs)"
    and lst: "rest ! (2 * length ms) = [slice (if ms = [] then m_end m else m_end (last ms)) (length s) s]"
    by blast+
  have segs': "segs = [slice pos (m_start m) s] # vs # rest" using segs vs by simp
  have "length segs = 2 * length (m # ms) + 1" using segs' len by simp
  moreover have "segs ! (2 * k) = [slice (if k = 0 then pos else m_end ((m # ms) ! (k - 1))) (m_start ((m # ms) ! k)) s]
           \<and> (\<exists>vs. folded_by rng enm s ((m # ms) ! k) vs \<and> segs ! (2 * k + 1) = vs)"
    if "k < length (m # ms)" for k
  proof (cases k)
    case 0
    with segs' vs show ?thesis by simp
  next
    case (Suc j)
    with that have "j < length ms" by simp
    from nth [OF this] Suc segs' show ?thesis by (cases j) simp_all
  qed
  moreover have "segs ! (2 * length (m # ms)) =
      [slice (if m # ms = [] then pos else m_end (last (m # ms))) (length s) s]"
    using segs' lst by simp
  ultimately show ?case by blast
qed

lemma finditer_scanned: "scanned r e s 0 (finditer r e s)"
  by (simp add: finditer_def finditer_from_scanned)

lemma m_end_le_resume: "m_start m \<le> m_end m \<Longrightarrow> m_end m \<le> resume m"
  by (simp add: resume_def)

lemma prev_end_last: "prev_end ms (length ms) = (if ms = [] then 0 else m_end (last ms))"
  by (simp add: prev_end_def last_conv_nth)

lemma scan_start_last: "scan_start ms (length ms) = (if ms = [] then 0 else resume (last ms))"
  by (simp add: scan_start_def last_conv_nth)

lemma unfold_arguments_Inl:
  assumes "s = escape (join '' '' arguments)"
    and "ms = finditer (regex rng) (regex enm) s"
    and "unfold_arguments escape hex2str rng enm arguments = Inl err"
  shows "\<exists>m\<in>set ms. (\<exists>g. group_range m = Some g \<and> unfold rng g = Inl err)
                   \<or> (\<exists>g. group_enumeration m = Some g \<and> unfold enm g = Inl err)"
proof -
  from assms have "unfold_loop rng enm s 0 ms = Inl err"
    by (simp add: unfold_arguments_def Let_def split: sum.splits)
  from unfold_loop_Inl [OF this] obtain m where "m \<in> set ms" "unfold_match rng enm m = Inl err"
    by blast
  with unfold_match_Inl [of rng enm m err] show ?thesis by blast
qed

lemma unfold_arguments_Inr:
  assumes "s = escape (join '' '' arguments)"
    and "ms = finditer (regex rng) (regex enm) s"
    and "unfold_arguments escape hex2str rng enm arguments = Inr segs"
  shows "length segs = 2 * length ms + 1"
    and "k < length ms \<Longrightarrow>
           segs ! (2 * k) = [hex2str (slice (prev_end ms k) (m_start (ms ! k)) s)]
         \<and> (\<exists>vs. folded_by rng enm s (ms ! k) vs \<and> segs ! (2 * k + 1) = map hex2str vs)"
    and "segs ! (2 * length ms) = [hex2str (slice (prev_end ms (length ms)) (length s) s)]"
proof -
  from assms obtain raw where raw: "unfold_loop rng enm s 0 ms = Inr raw"
    and segs: "segs = map (map hex2str) raw"
    by (auto simp: unfold_arguments_def Let_def split: sum.splits)
  have sc: "scanned (regex rng) (regex enm) s 0 ms"
    using assms(2) by (simp add: finditer_scanned)
  then have all: "\<forall>m\<in>set ms. master_regex (regex rng) (regex enm) s (m_start m) = Some m"
    by (blast intro: scanned_set)
  note L = unfold_loop_Inr [OF all raw]
  from L have len: "length raw = 2 * length ms + 1" by blast
  with segs show "length segs = 2 * length ms + 1" by simp
  {
    assume k: "k < length ms"
    from L k have a: "raw ! (2 * k) = [slice (if k = 0 then 0 else m_end (ms ! (k - 1))) (m_start (ms ! k)) s]"
      and b: "\<exists>vs. folded_by rng enm s (ms ! k) vs \<and> raw ! (2 * k + 1) = vs"
      by blast+
    from k len have i: "2 * k < length raw" "2 * k + 1 < length raw" by simp_all
    from a b i segs
    show "segs ! (2 * k) = [hex2str (slice (prev_end ms k) (m_start (ms ! k)) s)]
         \<and> (\<exists>vs. folded_by rng enm s (ms ! k) vs \<and> segs ! (2 * k + 1) = map hex2str vs)"
      by (auto simp: prev_end_def)
  }
  from L have "raw ! (2 * length ms) = [slice (if ms = [] then 0 else m_end (last ms)) (length s) s]"
    by blast
  moreover from len have "2 * length ms < length raw" by simp
  ultimately show "segs ! (2 * length ms) = [hex2str (slice (prev_end ms (length ms)) (length s) s)]"
    using segs by (simp add: prev_end_last)
qed

text \<open>
  C2. With \<open>s\<close> the escaped text and \<open>ms\<close> the matches of the master regex in it, the
  unfolder either raises what the \<open>unfold\<close> of a matched argument raised, or returns
  \<open>2 * length ms + 1\<close> segments, never none and an odd number: at each even position
  \<open>2 * k\<close> the singleton Literal of the text between the end of the previous match (the start
  of the text for the first) and the start of match \<open>k\<close>, at each odd position \<open>2 * k + 1\<close>
  the Folded segment of match \<open>k\<close>, and at the last position the singleton Literal of the text
  behind the last match, present also when that text is empty. Every value has gone through
  \<open>hex2str\<close>.
\<close>

theorem unfold_arguments_segments:
  assumes "s = escape (join '' '' arguments)"
    and "ms = finditer (regex rng) (regex enm) s"
  shows "(\<exists>err. unfold_arguments escape hex2str rng enm arguments = Inl err
            \<and> (\<exists>m\<in>set ms. (\<exists>g. group_range m = Some g \<and> unfold rng g = Inl err)
                          \<or> (\<exists>g. group_enumeration m = Some g \<and> unfold enm g = Inl err)))
       \<or> (\<exists>segs. unfold_arguments escape hex2str rng enm arguments = Inr segs
            \<and> length segs = 2 * length ms + 1
            \<and> (\<forall>k<length ms.
                  segs ! (2 * k) = [hex2str (slice (prev_end ms k) (m_start (ms ! k)) s)]
                \<and> (\<exists>vs. folded_by rng enm s (ms ! k) vs \<and> segs ! (2 * k + 1) = map hex2str vs))
            \<and> segs ! (2 * length ms) = [hex2str (slice (prev_end ms (length ms)) (length s) s)])"
proof (cases "unfold_arguments escape hex2str rng enm arguments")
  case (Inl err)
  with unfold_arguments_Inl [OF assms Inl] show ?thesis by blast
next
  case (Inr segs)
  from unfold_arguments_Inr [OF assms Inr] Inr show ?thesis by blast
qed

text \<open>
  C3. The matches come from one scan from left to right: each starts at or behind the point
  where the scan resumed, which is at or behind the end of the previous match, so no match
  reaches into consumed text; no position between that point and the start of the match is
  matched by either pattern, and none behind the last match is, so each match is the leftmost
  one. Where the Range pattern matches at the start of a match, the match is its match and
  its group, and the Folded segment is what the Range unfolds, whether or not the Enumeration
  pattern matches there too; the Enumeration gives the match only where the Range does not
  match.
\<close>

theorem unfold_arguments_precedence:
  assumes "s = escape (join '' '' arguments)"
    and "ms = finditer (regex rng) (regex enm) s"
  shows "(\<forall>k<length ms.
            prev_end ms k \<le> scan_start ms k
          \<and> scan_start ms k \<le> m_start (ms ! k)
          \<and> m_start (ms ! k) \<le> m_end (ms ! k)
          \<and> (\<forall>p. scan_start ms k \<le> p \<and> p < m_start (ms ! k) \<longrightarrow>
                 regex rng s p = None \<and> regex enm s p = None)
          \<and> (regex rng s (m_start (ms ! k)) \<noteq> None \<longrightarrow>
                 m_end (ms ! k) = m_start (ms ! k) + the (regex rng s (m_start (ms ! k)))
               \<and> group_range (ms ! k) = Some (slice (m_start (ms ! k)) (m_end (ms ! k)) s)
               \<and> group_enumeration (ms ! k) = None
               \<and> (\<forall>segs. unfold_arguments escape hex2str rng enm arguments = Inr segs \<longrightarrow>
                     (\<exists>vs. unfold rng (slice (m_start (ms ! k)) (m_end (ms ! k)) s) = Inr vs
                         \<and> segs ! (2 * k + 1) = map hex2str vs)))
          \<and> (regex rng s (m_start (ms ! k)) = None \<longrightarrow>
                 regex enm s (m_start (ms ! k)) \<noteq> None
               \<and> m_end (ms ! k) = m_start (ms ! k) + the (regex enm s (m_start (ms ! k)))
               \<and> group_range (ms ! k) = None
               \<and> group_enumeration (ms ! k) = Some (slice (m_start (ms ! k)) (m_end (ms ! k)) s)))
       \<and> (\<forall>p. scan_start ms (length ms) \<le> p \<and> p \<le> length s \<longrightarrow>
              regex rng s p = None \<and> regex enm s p = None)"
proof (intro conjI allI impI)
  have sc: "scanned (regex rng) (regex enm) s 0 ms"
    using assms(2) by (simp add: finditer_scanned)
  {
    fix p assume "scan_start ms (length ms) \<le> p \<and> p \<le> length s"
    with scanned_last [OF sc] have "master_regex (regex rng) (regex enm) s p = None"
      by (simp add: scan_start_last)
    then show "regex rng s p = None" and "regex enm s p = None"
      by (simp_all add: master_regex_None)
  }
  fix k assume k: "k < length ms"
  let ?m = "ms ! k"
  from scanned_nth [OF sc k]
  have st: "scan_start ms k \<le> m_start ?m"
    and none: "\<And>p. scan_start ms k \<le> p \<and> p < m_start ?m \<Longrightarrow>
                 master_regex (regex rng) (regex enm) s p = None"
    and mm: "master_regex (regex rng) (regex enm) s (m_start ?m) = Some ?m"
    by (simp_all add: scan_start_def)
  show "scan_start ms k \<le> m_start ?m" by (rule st)
  show se: "m_start ?m \<le> m_end ?m" by (rule master_regex_Some(2) [OF mm])
  show "prev_end ms k \<le> scan_start ms k"
  proof (cases k)
    case 0
    then show ?thesis by (simp add: prev_end_def scan_start_def)
  next
    case (Suc j)
    with k have "j < length ms" by simp
    from scanned_nth [OF sc this]
    have "master_regex (regex rng) (regex enm) s (m_start (ms ! j)) = Some (ms ! j)" by simp
    from m_end_le_resume [OF master_regex_Some(2) [OF this]] Suc
    show ?thesis by (simp add: prev_end_def scan_start_def)
  qed
  {
    fix p assume "scan_start ms k \<le> p \<and> p < m_start ?m"
    from none [OF this] show "regex rng s p = None" and "regex enm s p = None"
      by (simp_all add: master_regex_None)
  }
  {
    assume r: "regex rng s (m_start ?m) \<noteq> None"
    from master_regex_Some(3) [OF mm r]
    show "m_end ?m = m_start ?m + the (regex rng s (m_start ?m))"
      and gr: "group_range ?m = Some (slice (m_start ?m) (m_end ?m) s)"
      and ge: "group_enumeration ?m = None"
      by simp_all
    fix segs assume res: "unfold_arguments escape hex2str rng enm arguments = Inr segs"
    from unfold_arguments_Inr(2) [OF assms res k] gr ge
    show "\<exists>vs. unfold rng (slice (m_start ?m) (m_end ?m) s) = Inr vs
              \<and> segs ! (2 * k + 1) = map hex2str vs"
      by (auto simp: folded_by_def)
  }
  {
    assume r: "regex rng s (m_start ?m) = None"
    from master_regex_Some(4) [OF mm r]
    show "regex enm s (m_start ?m) \<noteq> None"
      and "m_end ?m = m_start ?m + the (regex enm s (m_start ?m))"
      and "group_range ?m = None"
      and "group_enumeration ?m = Some (slice (m_start ?m) (m_end ?m) s)"
      by simp_all
  }
qed

text \<open>
  C2 at the arguments \<open>run --mode=[a b c]\<close>, with the folded arguments modelled from the
  spec and a text without escaped characters, which \<open>escape\<close> and \<open>hex2str\<close> leave as it is.
\<close>

theorem unfold_arguments_segments_witness:
  "unfold_arguments (\<lambda>s. s) (\<lambda>s. s) range_spec enumeration_spec [''run'', ''--mode=[a b c]'']
     = Inr [[''run --mode=''], [''a'', ''b'', ''c''], [[]]]
   \<and> finditer (regex range_spec) (regex enumeration_spec) ''run --mode=[a b c]''
     = [\<lparr>m_start = 11, m_end = 18, group_range = None, group_enumeration = Some ''[a b c]''\<rparr>]
   \<and> length [[''run --mode=''], [''a'', ''b'', ''c''], [[]]]
     = 2 * length (finditer (regex range_spec) (regex enumeration_spec) ''run --mode=[a b c]'') + 1"
proof -
  let ?args = "[''run'', ''--mode=[a b c]'']"
  let ?s = "''run --mode=[a b c]''"
  let ?ms = "finditer (regex range_spec) (regex enumeration_spec) ?s"
  have a1: "?s = (\<lambda>s. s) (join '' '' ?args)" by simp
  have a2: "?ms = finditer (regex range_spec) (regex enumeration_spec) ?s" by simp
  have ev: "unfold_arguments (\<lambda>s. s) (\<lambda>s. s) range_spec enumeration_spec ?args
     = Inr [[''run --mode=''], [''a'', ''b'', ''c''], [[]]]"
    by code_simp
  have fi: "?ms = [\<lparr>m_start = 11, m_end = 18, group_range = None, group_enumeration = Some ''[a b c]''\<rparr>]"
    by code_simp
  from unfold_arguments_segments [where escape = "\<lambda>s. s" and hex2str = "\<lambda>s. s"
      and arguments = ?args and rng = range_spec and enm = enumeration_spec and s = ?s and ms = ?ms,
      OF a1 a2] ev
  have "length [[''run --mode=''], [''a'', ''b'', ''c''], [[]]] = 2 * length ?ms + 1"
    by auto
  with ev fi show ?thesis by blast
qed

text \<open>
  C3 at the text \<open>x=[1:3] [a b]\<close>: at position 2 both patterns match the five characters
  \<open>[1:3]\<close>, and the match and the segment are the Range's.
\<close>

theorem unfold_arguments_precedence_witness:
  "regex range_spec ''x=[1:3] [a b]'' 2 = Some 5
   \<and> regex enumeration_spec ''x=[1:3] [a b]'' 2 = Some 5
   \<and> finditer (regex range_spec) (regex enumeration_spec) ''x=[1:3] [a b]''
     = [\<lparr>m_start = 2, m_end = 7, group_range = Some ''[1:3]'', group_enumeration = None\<rparr>,
        \<lparr>m_start = 8, m_end = 13, group_range = None, group_enumeration = Some ''[a b]''\<rparr>]
   \<and> unfold_arguments (\<lambda>s. s) (\<lambda>s. s) range_spec enumeration_spec [''x=[1:3]'', ''[a b]'']
     = Inr [[''x=''], [''1'', ''2'', ''3''], ['' ''], [''a'', ''b''], [[]]]
   \<and> (\<exists>vs. unfold range_spec ''[1:3]'' = Inr vs
          \<and> [[''x=''], [''1'', ''2'', ''3''], ['' ''], [''a'', ''b''], [[]]] ! 1 = vs)"
proof -
  let ?args = "[''x=[1:3]'', ''[a b]'']"
  let ?s = "''x=[1:3] [a b]''"
  let ?ms = "[\<lparr>m_start = 2, m_end = 7, group_range = Some ''[1:3]'', group_enumeration = None\<rparr>,
        \<lparr>m_start = 8, m_end = 13, group_range = None, group_enumeration = Some ''[a b]''\<rparr>]"
  let ?segs = "[[''x=''], [''1'', ''2'', ''3''], ['' ''], [''a'', ''b''], [[]]]"
  have a1: "?s = (\<lambda>s. s) (join '' '' ?args)" by simp
  have fi: "finditer (regex range_spec) (regex enumeration_spec) ?s = ?ms" by code_simp
  have a2: "?ms = finditer (regex range_spec) (regex enumeration_spec) ?s" by (simp only: fi)
  have r: "regex range_spec ?s 2 = Some 5" by code_simp
  have e: "regex enumeration_spec ?s 2 = Some 5" by code_simp
  have ev: "unfold_arguments (\<lambda>s. s) (\<lambda>s. s) range_spec enumeration_spec ?args = Inr ?segs"
    by code_simp
  have k: "0 < length ?ms" by simp
  have st: "m_start (?ms ! 0) = 2" and en: "m_end (?ms ! 0) = 7" by simp_all
  have sl: "slice 2 7 ?s = ''[1:3]''" by (simp add: slice_def)
  note T = unfold_arguments_precedence [where escape = "\<lambda>s. s" and hex2str = "\<lambda>s. s"
      and arguments = ?args and rng = range_spec and enm = enumeration_spec and s = ?s and ms = ?ms,
      OF a1 a2, THEN conjunct1, rule_format, OF k]
  from T have tie: "regex range_spec ?s (m_start (?ms ! 0)) \<noteq> None \<longrightarrow>
      (\<forall>segs. unfold_arguments (\<lambda>s. s) (\<lambda>s. s) range_spec enumeration_spec ?args = Inr segs \<longrightarrow>
         (\<exists>vs. unfold range_spec (slice (m_start (?ms ! 0)) (m_end (?ms ! 0)) ?s) = Inr vs
              \<and> segs ! (2 * 0 + 1) = map (\<lambda>s. s) vs))"
    by blast
  have "regex range_spec ?s (m_start (?ms ! 0)) \<noteq> None" by (simp only: st r) simp
  with tie ev have "\<exists>vs. unfold range_spec (slice (m_start (?ms ! 0)) (m_end (?ms ! 0)) ?s) = Inr vs
              \<and> ?segs ! (2 * 0 + 1) = map (\<lambda>s. s) vs"
    by blast
  then have "\<exists>vs. unfold range_spec ''[1:3]'' = Inr vs \<and> ?segs ! 1 = vs"
    by (simp only: st en sl) simp
  with r e fi ev show ?thesis by blast
qed

end
